theory Spec2Isabelle
  imports Main "HOL-Library.Multiset" "HOL-Library.Char_ord" "HOL-Library.List_Lexorder"
begin

section \<open>Yahtzee scoring rules (src/Rules.js)\<close>

text \<open>
  Dice values are JavaScript numbers; every roll the rules are meant for holds small
  integers, so a roll is an \<open>int list\<close>. A well-formed roll has exactly five dice,
  each showing a face from 1 to 6.
\<close>

definition valid_roll :: "int list \<Rightarrow> bool" where
  "valid_roll dice \<longleftrightarrow> length dice = 5 \<and> list_all (\<lambda>d. 1 \<le> d \<and> d \<le> 6) dice"

subsection \<open>JavaScript built-ins used by the rules\<close>

text \<open>The only exception the module can raise: \<open>reduce\<close> of an empty array without
  an initial value.\<close>

datatype js_error = TypeError

text \<open>\<open>a[i]\<close>: reading past the end of an array yields \<open>undefined\<close>, here \<open>None\<close>.\<close>

definition js_index :: "'a list \<Rightarrow> nat \<Rightarrow> 'a option" where
  "js_index xs i = (if i < length xs then Some (xs ! i) else None)"

text \<open>
  A \<open>Map\<close> keeps its entries in insertion order: an association list with distinct
  keys. \<open>set\<close> on a key that is present replaces the value in place, on a new key it
  appends the entry.
\<close>

definition Map_get :: "('k \<times> 'v) list \<Rightarrow> 'k \<Rightarrow> 'v option" where
  "Map_get m k = map_of m k"

fun Map_set :: "('k \<times> 'v) list \<Rightarrow> 'k \<Rightarrow> 'v \<Rightarrow> ('k \<times> 'v) list" where
  "Map_set [] k v = [(k, v)]"
| "Map_set ((k', v') # m) k v =
     (if k' = k then (k', v) # m else (k', v') # Map_set m k v)"

definition Map_values :: "('k \<times> 'v) list \<Rightarrow> 'v list" where
  "Map_values m = map snd m"

text \<open>
  A \<open>Set\<close> keeps its members in the order in which they were first added;
  \<open>new Set(dice)\<close> adds the dice from left to right.
\<close>

definition Set_add :: "'a list \<Rightarrow> 'a \<Rightarrow> 'a list" where
  "Set_add s x = (if x \<in> set s then s else s @ [x])"

definition new_Set :: "'a list \<Rightarrow> 'a list" where
  "new_Set xs = foldl Set_add [] xs"

definition Set_size :: "'a list \<Rightarrow> int" where
  "Set_size s = int (length s)"

definition Set_has :: "'a list \<Rightarrow> 'a \<Rightarrow> bool" where
  "Set_has s x \<longleftrightarrow> x \<in> set s"

text \<open>
  \<open>Array.prototype.sort()\<close> without a comparator orders the elements by their string
  representations, compared code unit by code unit; the sort is stable. The string of
  an integer of magnitude below \<open>10^21\<close> is its decimal numeral, with a leading minus
  sign when negative; dice values are far inside that range.
\<close>

definition digit_char :: "nat \<Rightarrow> char" where
  "digit_char n = char_of (48 + n)"

fun nat_digits :: "nat \<Rightarrow> string" where
  "nat_digits n = (if n < 10 then [digit_char n]
                   else nat_digits (n div 10) @ [digit_char (n mod 10)])"

declare nat_digits.simps [simp del]

definition Number_toString :: "int \<Rightarrow> string" where
  "Number_toString n = (if n < 0 then CHR ''-'' # nat_digits (nat (- n))
                        else nat_digits (nat n))"

definition Array_sort :: "int list \<Rightarrow> int list" where
  "Array_sort xs = sort_key Number_toString xs"

subsection \<open>class Rule: the shared helpers\<close>

text \<open>\<open>sum(dice)\<close>: \<open>dice.reduce((prev, curr) => prev + curr)\<close>. Without an initial value
  the first element starts the accumulator, and an empty array raises. JavaScript adds
  double-precision numbers; the addition of integers is exact as long as every partial
  sum stays below \<open>2^53\<close> in magnitude, which dice values from 1 to 6 guarantee. The model
  adds integers exactly: its lemmas describe the code on such values only, and every
  theorem below that speaks of the program's sum assumes dice from 1 to 6.\<close>

definition Rule_sum :: "int list \<Rightarrow> js_error + int" where
  "Rule_sum dice = (case dice of
       [] \<Rightarrow> Inl TypeError
     | d # ds \<Rightarrow> Inr (foldl (\<lambda>prev curr. prev + curr) d ds))"

text \<open>\<open>freq(dice)\<close>: one pass over the dice, \<open>freqs.set(d, (freqs.get(d) || 0) + 1)\<close>,
  then the values of the map in insertion order.\<close>

definition freq_step :: "(int \<times> int) list \<Rightarrow> int \<Rightarrow> (int \<times> int) list" where
  "freq_step freqs d =
     Map_set freqs d ((case Map_get freqs d of
                          None \<Rightarrow> 0
                        | Some c \<Rightarrow> if c = 0 then 0 else c) + 1)"

definition Rule_freq :: "int list \<Rightarrow> int list" where
  "Rule_freq dice = Map_values (foldl freq_step [] dice)"

text \<open>\<open>count(dice, val)\<close>: \<open>dice.filter(d => d === val).length\<close>.\<close>

definition Rule_count :: "int list \<Rightarrow> int \<Rightarrow> int" where
  "Rule_count dice val = int (length (filter (\<lambda>d. d = val) dice))"

subsection \<open>The rule classes\<close>

definition TotalOneNumber_evalRoll :: "int \<Rightarrow> int list \<Rightarrow> int" where
  "TotalOneNumber_evalRoll val dice = val * Rule_count dice val"

text \<open>The threshold is the instance property \<open>count\<close>, here \<open>cnt\<close>. The
  conditional calls \<open>sum\<close> only when some frequency reaches the threshold.\<close>

definition SumDistro_evalRoll :: "int \<Rightarrow> int list \<Rightarrow> js_error + int" where
  "SumDistro_evalRoll cnt dice =
     (if list_ex (\<lambda>c. c \<ge> cnt) (Rule_freq dice) then Rule_sum dice else Inr 0)"

definition FullHouse_evalRoll :: "int \<Rightarrow> int list \<Rightarrow> int" where
  "FullHouse_evalRoll score dice =
     (let f = Rule_freq dice in
      if (js_index f 0 = Some 3 \<and> js_index f 1 = Some 2)
         \<or> (js_index f 0 = Some 2 \<and> js_index f 1 = Some 3)
      then score else 0)"

text \<open>
  The scan of \<open>SmallStraight\<close>: \<open>for (let i = 0; i < d.length - 1; i++)\<close> with the two
  counters \<open>highestConsec\<close> and \<open>consecutive\<close> as loop state. The test
  \<open>d[i] + 1 === d[i + 1]\<close> is false when either read is \<open>undefined\<close>.
\<close>

definition consec_at :: "int list \<Rightarrow> nat \<Rightarrow> bool" where
  "consec_at d i = (case (js_index d i, js_index d (i + 1)) of
       (Some a, Some b) \<Rightarrow> a + 1 = b
     | _ \<Rightarrow> False)"

function SmallStraight_loop :: "int list \<Rightarrow> nat \<Rightarrow> int \<Rightarrow> int \<Rightarrow> int" where
  "SmallStraight_loop d i highestConsec consecutive =
     (if int i < int (length d) - 1 then
        (if consec_at d i
         then SmallStraight_loop d (i + 1)
                (max highestConsec (consecutive + 1)) (consecutive + 1)
         else SmallStraight_loop d (i + 1) highestConsec 1)
      else highestConsec)"
  by pat_completeness auto
termination
  by (relation "measure (\<lambda>(d, i, h, c). length d - i)") auto

declare SmallStraight_loop.simps [simp del]

definition SmallStraight_evalRoll :: "int \<Rightarrow> int list \<Rightarrow> int" where
  "SmallStraight_evalRoll score dice =
     (let d = Array_sort (new_Set dice);
          highestConsec = SmallStraight_loop d 0 0 1
      in if highestConsec \<ge> 4 then score else 0)"

definition LargeStraight_evalRoll :: "int \<Rightarrow> int list \<Rightarrow> int" where
  "LargeStraight_evalRoll score dice =
     (let d = new_Set dice in
      if Set_size d = 5 \<and> (\<not> Set_has d 1 \<or> \<not> Set_has d 6) then score else 0)"

definition Yahtzee_evalRoll :: "int \<Rightarrow> int list \<Rightarrow> int" where
  "Yahtzee_evalRoll score dice =
     (if js_index (Rule_freq dice) 0 = Some 5 then score else 0)"

subsection \<open>The exported rule instances\<close>

datatype rule =
    TotalOneNumber int
  | SumDistro int
  | FullHouse int
  | SmallStraight int
  | LargeStraight int
  | Yahtzee int

fun evalRoll :: "rule \<Rightarrow> int list \<Rightarrow> js_error + int" where
  "evalRoll (TotalOneNumber val) dice = Inr (TotalOneNumber_evalRoll val dice)"
| "evalRoll (SumDistro cnt) dice = SumDistro_evalRoll cnt dice"
| "evalRoll (FullHouse score) dice = Inr (FullHouse_evalRoll score dice)"
| "evalRoll (SmallStraight score) dice = Inr (SmallStraight_evalRoll score dice)"
| "evalRoll (LargeStraight score) dice = Inr (LargeStraight_evalRoll score dice)"
| "evalRoll (Yahtzee score) dice = Inr (Yahtzee_evalRoll score dice)"

definition ones :: rule where "ones = TotalOneNumber 1"
definition twos :: rule where "twos = TotalOneNumber 2"
definition threes :: rule where "threes = TotalOneNumber 3"
definition fours :: rule where "fours = TotalOneNumber 4"
definition fives :: rule where "fives = TotalOneNumber 5"
definition sixes :: rule where "sixes = TotalOneNumber 6"
definition threeOfKind :: rule where "threeOfKind = SumDistro 3"
definition fourOfKind :: rule where "fourOfKind = SumDistro 4"
definition fullHouse :: rule where "fullHouse = FullHouse 25"
definition smallStraight :: rule where "smallStraight = SmallStraight 30"
definition largeStraight :: rule where "largeStraight = LargeStraight 40"
definition yahtzee :: rule where "yahtzee = Yahtzee 50"
definition chance :: rule where "chance = SumDistro 0"

definition exported :: "rule list" where
  "exported = [ones, twos, threes, fours, fives, sixes, threeOfKind, fourOfKind,
               fullHouse, smallStraight, largeStraight, yahtzee, chance]"

subsection \<open>Notions of the specification\<close>

text \<open>
  The length of the run of consecutive integers that starts at the head of a list,
  and the longest such run starting anywhere in the list.
\<close>

fun run_prefix :: "int list \<Rightarrow> nat" where
  "run_prefix [] = 0"
| "run_prefix [x] = 1"
| "run_prefix (x # y # r) = (if y = x + 1 then 1 + run_prefix (y # r) else 1)"

fun longest_run :: "int list \<Rightarrow> nat" where
  "longest_run [] = 0"
| "longest_run (x # xs) = max (run_prefix (x # xs)) (longest_run xs)"

text \<open>
  The small straight as the specification describes it: the distinct values sorted in
  ascending numeric order, then the same scan.
\<close>

definition SmallStraight_numeric :: "int \<Rightarrow> int list \<Rightarrow> int" where
  "SmallStraight_numeric score dice =
     (let d = sort (new_Set dice);
          highestConsec = SmallStraight_loop d 0 0 1
      in if highestConsec \<ge> 4 then score else 0)"

section \<open>Properties of the helpers\<close>

lemma foldl_plus_sum_list: "foldl (\<lambda>prev curr. prev + curr) (a::int) xs = a + sum_list xs"
  by (induction xs arbitrary: a) simp_all

lemma Rule_sum_Cons: "Rule_sum (d # ds) = Inr (sum_list (d # ds))"
  by (simp add: Rule_sum_def foldl_plus_sum_list)

lemma Rule_sum_nonempty: "dice \<noteq> [] \<Longrightarrow> Rule_sum dice = Inr (sum_list dice)"
  by (cases dice) (simp_all add: Rule_sum_Cons del: sum_list.Cons)

lemma Rule_count_count_list: "Rule_count dice val = int (count_list dice val)"
  by (induction dice) (simp_all add: Rule_count_def)

lemma valid_roll_length: "valid_roll dice \<Longrightarrow> length dice = 5"
  by (simp add: valid_roll_def)

lemma valid_roll_nonempty: "valid_roll dice \<Longrightarrow> dice \<noteq> []"
  by (auto simp: valid_roll_def)

lemma valid_roll_range: "valid_roll dice \<Longrightarrow> d \<in> set dice \<Longrightarrow> 1 \<le> d \<and> d \<le> 6"
  by (simp add: valid_roll_def list_all_iff)

lemma new_Set_snoc: "new_Set (xs @ [x]) = Set_add (new_Set xs) x"
  by (simp add: new_Set_def)

lemma set_new_Set: "set (new_Set xs) = set xs"
  by (induction xs rule: rev_induct) (auto simp: new_Set_snoc Set_add_def new_Set_def)

lemma distinct_new_Set: "distinct (new_Set xs)"
  by (induction xs rule: rev_induct)
     (auto simp: new_Set_snoc Set_add_def new_Set_def set_new_Set)

lemma Set_add_old: "x \<in> set s \<Longrightarrow> Set_add s x = s"
  by (simp add: Set_add_def)

lemma Set_add_new: "x \<notin> set s \<Longrightarrow> Set_add s x = s @ [x]"
  by (simp add: Set_add_def)

lemma foldl_Set_add_extends: "\<exists>t. foldl Set_add s ys = s @ t"
proof (induction ys arbitrary: s)
  case Nil
  show ?case by simp
next
  case (Cons y ys)
  obtain t where "foldl Set_add (Set_add s y) ys = Set_add s y @ t"
    using Cons [of "Set_add s y"] by blast
  then show ?case by (cases "y \<in> set s") (simp_all add: Set_add_old Set_add_new)
qed

lemma new_Set_Cons: "\<exists>t. new_Set (x # xs) = x # t"
  using foldl_Set_add_extends [of "[x]" xs] by (simp add: new_Set_def Set_add_def)

lemma Map_get_graph:
  "Map_get (map (\<lambda>v. (v, g v)) s) x = (if x \<in> set s then Some (g x) else None)"
  by (induction s) (auto simp: Map_get_def)

lemma Map_set_graph:
  "distinct s \<Longrightarrow> Map_set (map (\<lambda>v. (v, g v)) s) x w =
     (if x \<in> set s then map (\<lambda>v. (v, (g(x := w)) v)) s
      else map (\<lambda>v. (v, g v)) s @ [(x, w)])"
  by (induction s) auto

lemma freq_fold:
  "foldl freq_step [] xs = map (\<lambda>v. (v, int (count_list xs v))) (new_Set xs)"
proof (induction xs rule: rev_induct)
  case Nil
  show ?case by (simp add: new_Set_def)
next
  case (snoc x xs)
  show ?case
  proof (cases "x \<in> set xs")
    case True
    then have "count_list xs x \<noteq> 0" by (simp add: count_list_0_iff)
    with True snoc show ?thesis
      by (simp add: freq_step_def Map_get_graph Map_set_graph new_Set_snoc Set_add_def
            set_new_Set distinct_new_Set)
  next
    case False
    then have "count_list xs x = 0" by (simp add: count_list_0_iff)
    with False snoc show ?thesis
      by (auto simp: freq_step_def Map_get_graph Map_set_graph new_Set_snoc Set_add_def
            set_new_Set distinct_new_Set)
  qed
qed

lemma Rule_freq_counts:
  "Rule_freq xs = map (\<lambda>v. int (count_list xs v)) (new_Set xs)"
  by (simp add: Rule_freq_def Map_values_def freq_fold comp_def)

subsection \<open>The frequency profile\<close>

lemma count_list_mset: "count_list xs x = count (mset xs) x"
  by (induction xs) auto

lemma mset_new_Set: "mset (new_Set xs) = mset_set (set xs)"
  using mset_set_set [OF distinct_new_Set, of xs] by (simp add: set_new_Set)

lemma Rule_freq_mset:
  "mset (Rule_freq xs) = image_mset (\<lambda>v. int (count (mset xs) v)) (mset_set (set xs))"
  by (simp add: Rule_freq_counts count_list_mset mset_new_Set)

lemma Rule_freq_perm: "mset xs = mset ys \<Longrightarrow> mset (Rule_freq xs) = mset (Rule_freq ys)"
  using mset_eq_setD [of xs ys] by (simp add: Rule_freq_mset)

lemma set_Rule_freq: "set (Rule_freq xs) = (\<lambda>v. int (count_list xs v)) ` set xs"
  by (simp add: Rule_freq_counts set_new_Set)

lemma Rule_freq_pos: "c \<in> set (Rule_freq xs) \<Longrightarrow> 1 \<le> c"
proof -
  assume "c \<in> set (Rule_freq xs)"
  then obtain v where v: "v \<in> set xs" and c: "c = int (count_list xs v)"
    by (auto simp: set_Rule_freq)
  from v have "count_list xs v \<noteq> 0" by (simp add: count_list_0_iff)
  with c show ?thesis by simp
qed

lemma sum_list_Rule_freq: "sum_list (Rule_freq xs) = int (length xs)"
proof -
  have "sum_list (Rule_freq xs) = (\<Sum>v\<in>set xs. int (count_list xs v))"
    using sum_list_distinct_conv_sum_set [OF distinct_new_Set, of "\<lambda>v. int (count_list xs v)" xs]
    by (simp add: Rule_freq_counts set_new_Set)
  also have "\<dots> = int (sum (count_list xs) (set xs))" by simp
  also have "\<dots> = int (length xs)" by (simp add: sum_count_set)
  finally show ?thesis .
qed

lemma Rule_freq_Nil: "Rule_freq [] = []"
  by (simp add: Rule_freq_counts new_Set_def)

lemma Rule_freq_first:
  "js_index (Rule_freq (x # xs)) 0 = Some (int (count_list (x # xs) x))"
proof -
  obtain t where "new_Set (x # xs) = x # t" using new_Set_Cons [of x xs] by blast
  then show ?thesis by (simp add: Rule_freq_counts js_index_def)
qed

lemma count_list_full: "count_list xs a = length xs \<longleftrightarrow> (\<forall>x\<in>set xs. x = a)"
proof (induction xs)
  case Nil
  show ?case by simp
next
  case (Cons y ys)
  have "count_list ys a \<le> length ys" by (rule count_le_length)
  with Cons show ?case by auto
qed

lemma sum_list_ge_length: "\<forall>c\<in>set r. (1::int) \<le> c \<Longrightarrow> int (length r) \<le> sum_list r"
  by (induction r) auto

lemma full_house_counts:
  assumes total: "sum_list f = (5::int)" and pos: "\<forall>c\<in>set f. 1 \<le> c"
  shows "((js_index f 0 = Some 3 \<and> js_index f 1 = Some 2)
          \<or> (js_index f 0 = Some 2 \<and> js_index f 1 = Some 3))
         \<longleftrightarrow> mset f = {#3, 2#}"
proof
  assume idx: "(js_index f 0 = Some 3 \<and> js_index f 1 = Some 2)
          \<or> (js_index f 0 = Some 2 \<and> js_index f 1 = Some 3)"
  then have "2 \<le> length f" by (auto simp: js_index_def split: if_splits)
  then obtain a b r where f: "f = a # b # r"
    by (cases f; cases "tl f") auto
  from idx f have ab: "a + b = 5" "(a = 3 \<and> b = 2) \<or> (a = 2 \<and> b = 3)"
    by (auto simp: js_index_def)
  from total f ab have "sum_list r = 0" by simp
  moreover from pos f have "int (length r) \<le> sum_list r"
    by (intro sum_list_ge_length) simp
  ultimately have "r = []" by simp
  with f ab show "mset f = {#3, 2#}" by auto
next
  assume m: "mset f = {#3, 2#}"
  then have "size (mset f) = 2" by simp
  then have "length f = 2" by simp
  then obtain a b where f: "f = [a, b]"
    by (cases f; cases "tl f") auto
  with m have "{#a, b#} = {#3, 2#}" by simp
  then have "(a = 3 \<and> b = 2) \<or> (a = 2 \<and> b = 3)"
    by (auto simp: add_eq_conv_ex)
  with f show "(js_index f 0 = Some 3 \<and> js_index f 1 = Some 2)
          \<or> (js_index f 0 = Some 2 \<and> js_index f 1 = Some 3)"
    by (auto simp: js_index_def)
qed

subsection \<open>The rules that read the frequency profile\<close>

lemma FullHouse_evalRoll_char:
  assumes "length dice = 5"
  shows "FullHouse_evalRoll score dice = (if mset (Rule_freq dice) = {#3, 2#} then score else 0)"
proof -
  have "sum_list (Rule_freq dice) = 5" using assms by (simp add: sum_list_Rule_freq)
  moreover have "\<forall>c\<in>set (Rule_freq dice). 1 \<le> c" by (simp add: Rule_freq_pos)
  ultimately show ?thesis
    using full_house_counts [of "Rule_freq dice"] by (simp add: FullHouse_evalRoll_def Let_def)
qed

lemma full_house_faces:
  assumes len: "length dice = 5"
  shows "mset (Rule_freq dice) = {#3, 2#}
         \<longleftrightarrow> (\<exists>a b. count_list dice a = 3 \<and> count_list dice b = 2)"
proof
  assume m: "mset (Rule_freq dice) = {#3, 2#}"
  then have "3 \<in># mset (Rule_freq dice)" "2 \<in># mset (Rule_freq dice)" by simp_all
  then have "3 \<in> set (Rule_freq dice)" "2 \<in> set (Rule_freq dice)" by simp_all
  then show "\<exists>a b. count_list dice a = 3 \<and> count_list dice b = 2"
    by (auto simp: set_Rule_freq)
next
  assume "\<exists>a b. count_list dice a = 3 \<and> count_list dice b = 2"
  then obtain a b where a: "count_list dice a = 3" and b: "count_list dice b = 2" by blast
  then have ne: "a \<noteq> b" by auto
  from a b have mem: "a \<in> set dice" "b \<in> set dice"
    using count_list_0_iff [of dice a] count_list_0_iff [of dice b] by auto
  have "sum (count_list dice) (set dice) = 5"
    using sum_count_set [of dice "set dice"] len by simp
  moreover have "sum (count_list dice) (set dice)
      = sum (count_list dice) (set dice - {a, b}) + sum (count_list dice) {a, b}"
    using mem by (intro sum.subset_diff) auto
  moreover have "sum (count_list dice) {a, b} = 5" using a b ne by simp
  ultimately have "sum (count_list dice) (set dice - {a, b}) = 0" by simp
  then have "\<forall>v\<in>set dice - {a, b}. count_list dice v = 0" by simp
  then have "set dice - {a, b} = {}" by (auto simp: count_list_0_iff)
  with mem have "set dice = {a, b}" by auto
  with a b ne show "mset (Rule_freq dice) = {#3, 2#}"
    by (simp add: Rule_freq_mset flip: count_list_mset)
qed

lemma FullHouse_five_of_a_kind: "FullHouse_evalRoll 25 [5, 5, 5, 5, 5] = 0"
  by (simp add: FullHouse_evalRoll_def Rule_freq_def freq_step_def Map_get_def Map_values_def
        js_index_def)

lemma Yahtzee_cond:
  assumes "length dice = 5"
  shows "js_index (Rule_freq dice) 0 = Some 5 \<longleftrightarrow> (\<exists>v. dice = replicate 5 v)"
proof -
  from assms obtain x xs where d: "dice = x # xs" by (cases dice) auto
  have "js_index (Rule_freq dice) 0 = Some 5 \<longleftrightarrow> count_list dice x = length dice"
    using assms by (simp add: d Rule_freq_first del: count_list.simps)
  also have "\<dots> \<longleftrightarrow> (\<forall>y\<in>set dice. y = x)" by (rule count_list_full)
  also have "\<dots> \<longleftrightarrow> (\<exists>v. dice = replicate 5 v)"
  proof
    assume "\<forall>y\<in>set dice. y = x"
    then have "replicate (length dice) x = dice" by (intro replicate_length_same) simp
    with assms show "\<exists>v. dice = replicate 5 v" by auto
  next
    assume "\<exists>v. dice = replicate 5 v"
    then obtain v where v: "dice = replicate 5 v" by blast
    with d have "x = v" by (simp add: eval_nat_numeral)
    with v show "\<forall>y\<in>set dice. y = x" by simp
  qed
  finally show ?thesis .
qed

lemma Yahtzee_examples:
  "Yahtzee_evalRoll 50 [4, 4, 4, 4, 4] = 50" "Yahtzee_evalRoll 50 [4, 4, 4, 4, 3] = 0"
  by (simp_all add: Yahtzee_evalRoll_def Rule_freq_def freq_step_def Map_get_def Map_values_def
        js_index_def)

lemma SumDistro_cond:
  assumes "valid_roll dice"
  shows "list_ex (\<lambda>c. M \<le> c) (Rule_freq dice) \<longleftrightarrow> (\<exists>v\<in>{1..6}. M \<le> int (count_list dice v))"
proof -
  have "list_ex (\<lambda>c. M \<le> c) (Rule_freq dice) \<longleftrightarrow> (\<exists>v\<in>set dice. M \<le> int (count_list dice v))"
    by (simp add: list_ex_iff set_Rule_freq)
  also have "\<dots> \<longleftrightarrow> (\<exists>v\<in>{1..6}. M \<le> int (count_list dice v))"
  proof
    assume "\<exists>v\<in>set dice. M \<le> int (count_list dice v)"
    then show "\<exists>v\<in>{1..6}. M \<le> int (count_list dice v)"
      using valid_roll_range [OF assms] by auto
  next
    assume "\<exists>v\<in>{1..6}. M \<le> int (count_list dice v)"
    then obtain v where v: "M \<le> int (count_list dice v)" by blast
    show "\<exists>v\<in>set dice. M \<le> int (count_list dice v)"
    proof (cases "v \<in> set dice")
      case True
      with v show ?thesis by blast
    next
      case False
      with v have "M \<le> 0" by simp
      moreover obtain w where "w \<in> set dice"
        using valid_roll_nonempty [OF assms] by (cases dice) auto
      ultimately show ?thesis by force
    qed
  qed
  finally show ?thesis .
qed

lemma SumDistro_evalRoll_char:
  assumes "valid_roll dice"
  shows "SumDistro_evalRoll M dice =
           Inr (if \<exists>v\<in>{1..6}. M \<le> int (count_list dice v) then sum_list dice else 0)"
  using SumDistro_cond [OF assms, of M] valid_roll_nonempty [OF assms]
  by (simp add: SumDistro_evalRoll_def Rule_sum_nonempty)

lemma SumDistro_examples:
  "SumDistro_evalRoll 3 [3, 3, 3, 2, 2] = Inr 13"
  "SumDistro_evalRoll 3 [3, 3, 2, 2, 1] = Inr 0"
  "SumDistro_evalRoll 0 [2, 3, 3, 4, 6] = Inr 18"
  by (simp_all add: SumDistro_evalRoll_def Rule_sum_def Rule_freq_def freq_step_def Map_get_def
        Map_values_def)

subsection \<open>The large straight\<close>

lemma Set_size_new_Set: "Set_size (new_Set dice) = int (card (set dice))"
  using distinct_card [OF distinct_new_Set, of dice] by (simp add: Set_size_def set_new_Set)


lemma Set_has_new_Set: "Set_has (new_Set dice) v \<longleftrightarrow> v \<in> set dice"
  by (simp add: Set_has_def set_new_Set)


lemma LargeStraight_evalRoll_char:
  "LargeStraight_evalRoll score dice =
     (if card (set dice) = 5 \<and> (1 \<notin> set dice \<or> 6 \<notin> set dice) then score else 0)"
  by (simp add: LargeStraight_evalRoll_def Let_def Set_size_new_Set Set_has_new_Set)


lemma large_straight_runs:
  assumes "valid_roll dice"
  shows "card (set dice) = 5 \<and> (1 \<notin> set dice \<or> 6 \<notin> set dice)
         \<longleftrightarrow> set dice = {1..5} \<or> set dice = {2..6}"
proof
  assume h: "card (set dice) = 5 \<and> (1 \<notin> set dice \<or> 6 \<notin> set dice)"
  then have c: "card (set dice) = 5" by simp
  from h consider "1 \<notin> set dice" | "6 \<notin> set dice" by blast
  then show "set dice = {1..5} \<or> set dice = {2..6}"
  proof cases
    case 1
    have "set dice \<subseteq> {2..6}"
    proof
      fix x assume x: "x \<in> set dice"
      with 1 have "x \<noteq> 1" by blast
      with valid_roll_range [OF assms x] show "x \<in> {2..6}" by simp
    qed
    moreover have "card (set dice) = card {2..6::int}" using c by simp
    ultimately have "set dice = {2..6}" by (intro card_subset_eq) simp_all
    then show ?thesis by simp
  next
    case 2
    have "set dice \<subseteq> {1..5}"
    proof
      fix x assume x: "x \<in> set dice"
      with 2 have "x \<noteq> 6" by blast
      with valid_roll_range [OF assms x] show "x \<in> {1..5}" by simp
    qed
    moreover have "card (set dice) = card {1..5::int}" using c by simp
    ultimately have "set dice = {1..5}" by (intro card_subset_eq) simp_all
    then show ?thesis by simp
  qed
next
  assume "set dice = {1..5} \<or> set dice = {2..6}"
  then show "card (set dice) = 5 \<and> (1 \<notin> set dice \<or> 6 \<notin> set dice)"
  proof
    assume "set dice = {1..5}" then show ?thesis by simp
  next
    assume "set dice = {2..6}" then show ?thesis by simp
  qed
qed

lemma LargeStraight_examples:
  "LargeStraight_evalRoll 40 [1, 2, 3, 4, 5] = 40"
  "LargeStraight_evalRoll 40 [2, 3, 4, 5, 6] = 40"
  "LargeStraight_evalRoll 40 [1, 2, 3, 4, 6] = 0"
  by (simp_all add: LargeStraight_evalRoll_def new_Set_def Set_add_old Set_add_new Set_size_def Set_has_def)

subsection \<open>Sorting with the default comparator\<close>

lemma Number_toString_digit:
  assumes "0 \<le> n" and "n \<le> 9"
  shows "Number_toString n = [digit_char (nat n)]"
proof -
  from assms have "nat n < 10" by simp
  then have "nat_digits (nat n) = [digit_char (nat n)]"
    by (simp add: nat_digits.simps [of "nat n"])
  with assms show ?thesis by (simp add: Number_toString_def)
qed

lemma digit_char_le: "m \<le> 9 \<Longrightarrow> n \<le> 9 \<Longrightarrow> digit_char m \<le> digit_char n \<longleftrightarrow> m \<le> n"
  by (simp add: digit_char_def less_eq_char_def)

lemma digit_char_less: "m \<le> 9 \<Longrightarrow> n \<le> 9 \<Longrightarrow> digit_char m < digit_char n \<longleftrightarrow> m < n"
  by (simp add: digit_char_def less_char_def)

lemma Number_toString_le:
  assumes "0 \<le> x" "x \<le> 9" "0 \<le> y" "y \<le> 9"
  shows "Number_toString x \<le> Number_toString y \<longleftrightarrow> x \<le> y"
proof -
  from assms have b: "nat x \<le> 9" "nat y \<le> 9" by simp_all
  have "Number_toString x \<le> Number_toString y \<longleftrightarrow> digit_char (nat x) \<le> digit_char (nat y)"
    using assms by (auto simp: Number_toString_digit)
  also have "\<dots> \<longleftrightarrow> nat x \<le> nat y" using b by (rule digit_char_le)
  also have "\<dots> \<longleftrightarrow> x \<le> y" using assms by linarith
  finally show ?thesis .
qed

lemma insort_key_agree:
  "\<forall>y\<in>set ys. f x \<le> f y \<longleftrightarrow> x \<le> y \<Longrightarrow> insort_key f x ys = insort x ys"
  by (induction ys) simp_all


lemma sort_key_agree:
  "\<forall>x\<in>set xs. \<forall>y\<in>set xs. f x \<le> f y \<longleftrightarrow> x \<le> y \<Longrightarrow> sort_key f xs = sort xs"
proof (induction xs)
  case Nil
  show ?case by simp
next
  case (Cons x xs)
  then have "sort_key f xs = sort xs" by simp
  moreover from Cons.prems have "insort_key f x (sort xs) = insort x (sort xs)"
    by (intro insort_key_agree) simp
  ultimately show ?case by (simp add: sort_key_simps)
qed


lemma Array_sort_numeric:
  assumes "\<forall>d\<in>set xs. 0 \<le> d \<and> d \<le> 9"
  shows "Array_sort xs = sort xs"
  unfolding Array_sort_def using assms by (intro sort_key_agree) (simp add: Number_toString_le)


lemma sort_new_Set: "sort (new_Set dice) = sorted_list_of_set (set dice)"
proof (rule sorted_distinct_set_unique)
  show "sorted (sort (new_Set dice))" by simp
  show "distinct (sort (new_Set dice))" by (simp add: distinct_new_Set)
  show "sorted (sorted_list_of_set (set dice))" by simp
  show "distinct (sorted_list_of_set (set dice))" by simp
  show "set (sort (new_Set dice)) = set (sorted_list_of_set (set dice))"
    by (simp add: set_new_Set)
qed



lemma Array_sort_example: "Array_sort [9, 10] = [10, 9]"
  by (simp add: Array_sort_def Number_toString_def nat_digits.simps digit_char_def less_eq_char_def less_char_def)

subsection \<open>The scan for runs\<close>

lemma run_prefix_pos: "1 \<le> run_prefix (x # xs)"
  by (cases xs) simp_all

lemma run_prefix_le_longest: "run_prefix xs \<le> longest_run xs"
  by (cases xs) simp_all

lemma consec_at_nth:
  "Suc i < length d \<Longrightarrow> consec_at d i \<longleftrightarrow> d ! i + 1 = d ! Suc i"
  by (simp add: consec_at_def js_index_def)

lemma scan_step_consec:
  fixes hc c p l :: int
  assumes "1 \<le> c" and "1 \<le> p"
  shows "max (max (max hc (c + 1)) 1) (max (c + p) l)
         = max (max hc 1) (max (c + p) (max (1 + p) l))"
  using assms unfolding max_def by auto

lemma scan_step_reset:
  fixes hc c l :: int
  assumes "1 \<le> c" and "c = 1 \<or> c \<le> hc" and "p \<le> l"
  shows "max (max hc 1) (max p l) = max (max hc 1) (max c (max 1 l))"
  using assms unfolding max_def by auto

lemma scan_step_last:
  fixes hc c :: int
  assumes "1 \<le> c" and "c = 1 \<or> c \<le> hc"
  shows "max 1 hc = max (max hc 1) (max c 1)"
  using assms unfolding max_def by auto

lemma SmallStraight_loop_invariant:
  assumes "i < length d" and "1 \<le> c" and "c = 1 \<or> c \<le> hc"
  shows "max 1 (SmallStraight_loop d i hc c)
         = max (max hc 1) (max (c - 1 + int (run_prefix (drop i d)))
                               (int (longest_run (drop i d))))"
  using assms
proof (induction d i hc c rule: SmallStraight_loop.induct)
  case (1 d i hc c)
  show ?case
  proof (cases "int i < int (length d) - 1")
    case False
    with "1.prems"(1) have "Suc i = length d" by simp
    then have "drop i d = [d ! i]"
      using Cons_nth_drop_Suc [of i d] by simp
    moreover from False have "SmallStraight_loop d i hc c = hc"
      by (simp add: SmallStraight_loop.simps [of d i])
    ultimately show ?thesis
      using scan_step_last [OF "1.prems"(2,3)] by simp
  next
    case True
    then have lt: "Suc i < length d" by simp
    define r where "r = drop (Suc i) d"
    define p where "p = int (run_prefix r)"
    define l where "l = int (longest_run r)"
    have r: "r = d ! Suc i # drop (Suc (Suc i)) d"
      unfolding r_def using Cons_nth_drop_Suc [OF lt] by simp
    have dr: "drop i d = d ! i # d ! Suc i # drop (Suc (Suc i)) d"
      using Cons_nth_drop_Suc [of i d] Cons_nth_drop_Suc [OF lt] lt by simp
    have p: "1 \<le> p" "p \<le> l"
      using run_prefix_pos [of "d ! Suc i" "drop (Suc (Suc i)) d"] run_prefix_le_longest [of r]
      by (simp_all add: r p_def l_def)
    show ?thesis
    proof (cases "consec_at d i")
      case c: True
      then have eq: "d ! Suc i = d ! i + 1" using consec_at_nth [OF lt] by simp
      have rec: "max 1 (SmallStraight_loop d (i + 1) (max hc (c + 1)) (c + 1))
            = max (max (max hc (c + 1)) 1) (max (c + p) l)"
        using "1.IH"(1) [OF True c] lt "1.prems"(2) by (simp add: r_def p_def l_def)
      have now: "int (run_prefix (drop i d)) = 1 + p"
        "int (longest_run (drop i d)) = max (1 + p) l"
        using eq by (simp_all add: dr p_def l_def r)
      have "max 1 (SmallStraight_loop d i hc c)
            = max 1 (SmallStraight_loop d (i + 1) (max hc (c + 1)) (c + 1))"
        using True c by (simp add: SmallStraight_loop.simps [of d i])
      also note rec
      also have "max (max (max hc (c + 1)) 1) (max (c + p) l)
                 = max (max hc 1) (max (c + p) (max (1 + p) l))"
        using "1.prems"(2) p(1) by (rule scan_step_consec)
      also have "\<dots> = max (max hc 1) (max (c - 1 + int (run_prefix (drop i d)))
                               (int (longest_run (drop i d))))"
        by (simp add: now)
      finally show ?thesis .
    next
      case c: False
      then have neq: "d ! Suc i \<noteq> d ! i + 1" using consec_at_nth [OF lt] by simp
      have rec: "max 1 (SmallStraight_loop d (i + 1) hc 1) = max (max hc 1) (max p l)"
        using "1.IH"(2) [OF True c] lt by (simp add: r_def p_def l_def)
      have now: "int (run_prefix (drop i d)) = 1"
        "int (longest_run (drop i d)) = max 1 l"
        using neq by (simp_all add: dr p_def l_def r)
      have "max 1 (SmallStraight_loop d i hc c) = max 1 (SmallStraight_loop d (i + 1) hc 1)"
        using True c by (simp add: SmallStraight_loop.simps [of d i])
      also note rec
      also have "max (max hc 1) (max p l) = max (max hc 1) (max c (max 1 l))"
        using "1.prems"(2,3) p(2) by (rule scan_step_reset)
      also have "\<dots> = max (max hc 1) (max (c - 1 + int (run_prefix (drop i d)))
                               (int (longest_run (drop i d))))"
        by (simp add: now)
      finally show ?thesis .
    qed
  qed
qed

lemma SmallStraight_loop_threshold:
  "4 \<le> SmallStraight_loop d 0 0 1 \<longleftrightarrow> 4 \<le> longest_run d"
proof (cases d)
  case Nil
  then show ?thesis by (simp add: SmallStraight_loop.simps [of "[]" 0])
next
  case (Cons x xs)
  then have "max 1 (SmallStraight_loop d 0 0 1)
             = max (max 0 1) (max (1 - 1 + int (run_prefix d)) (int (longest_run d)))"
    using SmallStraight_loop_invariant [of 0 d 1 0] by simp
  moreover have "int (run_prefix d) \<le> int (longest_run d)"
    using run_prefix_le_longest [of d] by simp
  ultimately have "max 1 (SmallStraight_loop d 0 0 1) = max 1 (int (longest_run d))"
    by (simp add: max_def)
  then show ?thesis unfolding max_def by (auto split: if_splits)
qed

subsection \<open>Runs and the faces present\<close>

lemma run_prefix_covers:
  "sorted_wrt (<) (x # xs) \<Longrightarrow> \<forall>k<n. x + int k \<in> set (x # xs) \<Longrightarrow> n \<le> run_prefix (x # xs)"
proof (induction n arbitrary: x xs)
  case 0
  show ?case by simp
next
  case (Suc m)
  show ?case
  proof (cases m)
    case 0
    then show ?thesis using run_prefix_pos [of x xs] by simp
  next
    case (Suc j)
    with Suc.prems(2) have "x + int 1 \<in> set (x # xs)" by (intro Suc.prems(2) [rule_format]) simp
    then have in_xs: "x + 1 \<in> set xs" by simp
    then obtain y ys where xs: "xs = y # ys" by (cases xs) auto
    from Suc.prems(1) xs have ord: "x < y" "\<forall>z\<in>set ys. y < z" "sorted_wrt (<) (y # ys)"
      by auto
    from in_xs xs ord have y: "y = x + 1" by auto
    have "\<forall>k<m. y + int k \<in> set (y # ys)"
    proof (intro allI impI)
      fix k assume "k < m"
      then have "x + int (Suc k) \<in> set (x # xs)" using Suc.prems(2) by auto
      then show "y + int k \<in> set (y # ys)" using y xs by (auto simp: add.assoc)
    qed
    with ord(3) have "m \<le> run_prefix (y # ys)" by (rule Suc.IH)
    with y xs show ?thesis by simp
  qed
qed

lemma run_prefix_members: "k < run_prefix xs \<Longrightarrow> hd xs + int k \<in> set xs"
proof (induction xs arbitrary: k rule: run_prefix.induct)
  case 1
  then show ?case by simp
next
  case (2 x)
  then show ?case by simp
next
  case (3 x y r)
  show ?case
  proof (cases "y = x + 1")
    case False
    with 3(2) show ?thesis by simp
  next
    case True
    show ?thesis
    proof (cases k)
      case 0
      then show ?thesis by simp
    next
      case (Suc j)
      with 3(2) True have "j < run_prefix (y # r)" by simp
      with True have "hd (y # r) + int j \<in> set (y # r)" by (intro 3(1))
      with True Suc show ?thesis by (simp add: add.assoc)
    qed
  qed
qed

lemma longest_run_members:
  "1 \<le> n \<Longrightarrow> n \<le> longest_run xs \<Longrightarrow> \<exists>a. \<forall>k<n. a + int k \<in> set xs"
proof (induction xs)
  case Nil
  then show ?case by simp
next
  case (Cons x xs)
  show ?case
  proof (cases "n \<le> run_prefix (x # xs)")
    case True
    have "\<forall>k<n. x + int k \<in> set (x # xs)"
    proof (intro allI impI)
      fix k assume "k < n"
      with True have "k < run_prefix (x # xs)" by simp
      then show "x + int k \<in> set (x # xs)" using run_prefix_members [of k "x # xs"] by simp
    qed
    then show ?thesis by blast
  next
    case False
    with Cons.prems have "n \<le> longest_run xs" by simp
    with Cons.prems(1) obtain a where "\<forall>k<n. a + int k \<in> set xs" using Cons.IH by blast
    then have "\<forall>k<n. a + int k \<in> set (x # xs)" by simp
    then show ?thesis by blast
  qed
qed

lemma longest_run_covers:
  "sorted_wrt (<) xs \<Longrightarrow> \<forall>k<n. a + int k \<in> set xs \<Longrightarrow> n \<le> longest_run xs"
proof (induction xs)
  case Nil
  then show ?case by (cases n) auto
next
  case (Cons x xs)
  show ?case
  proof (cases "n = 0")
    case True
    then show ?thesis by simp
  next
    case False
    with Cons.prems(2) have a: "a + int 0 \<in> set (x # xs)" by blast
    show ?thesis
    proof (cases "a = x")
      case True
      with Cons.prems have "n \<le> run_prefix (x # xs)" by (intro run_prefix_covers) simp_all
      then show ?thesis by simp
    next
      case False
      with a have "a \<in> set xs" by simp
      with Cons.prems(1) have "x < a" by simp
      have "\<forall>k<n. a + int k \<in> set xs"
      proof (intro allI impI)
        fix k assume "k < n"
        with Cons.prems(2) have "a + int k \<in> set (x # xs)" by blast
        moreover from \<open>x < a\<close> have "a + int k \<noteq> x" by simp
        ultimately show "a + int k \<in> set xs" by simp
      qed
      moreover from Cons.prems(1) have "sorted_wrt (<) xs" by simp
      ultimately have "n \<le> longest_run xs" by (intro Cons.IH)
      then show ?thesis by simp
    qed
  qed
qed

lemma four_below: "(\<forall>k<4. P (k::nat)) \<longleftrightarrow> P 0 \<and> P 1 \<and> P 2 \<and> P 3"
proof
  assume "\<forall>k<4. P k"
  then show "P 0 \<and> P 1 \<and> P 2 \<and> P 3" by simp
next
  assume h: "P 0 \<and> P 1 \<and> P 2 \<and> P 3"
  show "\<forall>k<4. P k"
  proof (intro allI impI)
    fix k :: nat assume "k < 4"
    then have "k = 0 \<or> k = 1 \<or> k = 2 \<or> k = 3" by arith
    with h show "P k" by auto
  qed
qed

lemma small_straight_faces:
  assumes "finite S"
  shows "4 \<le> longest_run (sorted_list_of_set S) \<longleftrightarrow> (\<exists>a. {a, a + 1, a + 2, a + 3} \<subseteq> S)"
proof
  assume "4 \<le> longest_run (sorted_list_of_set S)"
  then obtain a where "\<forall>k<4. a + int k \<in> set (sorted_list_of_set S)"
    using longest_run_members [of 4 "sorted_list_of_set S"] by auto
  then have "{a, a + 1, a + 2, a + 3} \<subseteq> S" using assms by (simp add: four_below)
  then show "\<exists>a. {a, a + 1, a + 2, a + 3} \<subseteq> S" by blast
next
  assume "\<exists>a. {a, a + 1, a + 2, a + 3} \<subseteq> S"
  then obtain a where "{a, a + 1, a + 2, a + 3} \<subseteq> S" by blast
  then have "\<forall>k<4. a + int k \<in> set (sorted_list_of_set S)"
    using assms by (simp add: four_below)
  moreover have "sorted_wrt (<) (sorted_list_of_set S)" by simp
  ultimately show "4 \<le> longest_run (sorted_list_of_set S)" by (rule longest_run_covers [rotated])
qed

lemma SmallStraight_evalRoll_char:
  assumes "\<forall>d\<in>set dice. 0 \<le> d \<and> d \<le> 9"
  shows "SmallStraight_evalRoll score dice =
           (if 4 \<le> longest_run (sorted_list_of_set (set dice)) then score else 0)"
proof -
  have "Array_sort (new_Set dice) = sorted_list_of_set (set dice)"
    using assms by (simp add: Array_sort_numeric set_new_Set sort_new_Set)
  then show ?thesis
    by (simp add: SmallStraight_evalRoll_def Let_def SmallStraight_loop_threshold)
qed

lemma SmallStraight_examples:
  "SmallStraight_evalRoll 30 [1, 2, 3, 4, 6] = 30"
  "SmallStraight_evalRoll 30 [1, 2, 3, 5, 6] = 0"
proof -
  have s: "sorted_list_of_set (set [1, 2, 3, 4, 6 :: int]) = [1, 2, 3, 4, 6]"
    "sorted_list_of_set (set [1, 2, 3, 5, 6 :: int]) = [1, 2, 3, 5, 6]"
    by (simp_all add: sorted_list_of_set_sort_remdups)
  show "SmallStraight_evalRoll 30 [1, 2, 3, 4, 6] = 30"
    by (subst SmallStraight_evalRoll_char) (simp_all add: s)
  show "SmallStraight_evalRoll 30 [1, 2, 3, 5, 6] = 0"
    by (subst SmallStraight_evalRoll_char) (simp_all add: s)
qed

subsection \<open>All rules: order of the dice, sign of the score\<close>

lemma valid_roll_perm:
  assumes "valid_roll dice" and "mset dice' = mset dice"
  shows "valid_roll dice'"
  using assms mset_eq_length [of dice' dice] mset_eq_setD [of dice' dice]
  by (simp add: valid_roll_def list_all_iff)

lemma valid_roll_digits: "valid_roll dice \<Longrightarrow> \<forall>d\<in>set dice. 0 \<le> d \<and> d \<le> 9"
  using valid_roll_range [of dice] by fastforce

lemma sum_list_perm: "mset xs = mset ys \<Longrightarrow> sum_list xs = (sum_list ys :: int)"
  using sum_mset_sum_list [of xs] sum_mset_sum_list [of ys] by simp

lemma Yahtzee_cond_set:
  assumes "length dice = 5"
  shows "js_index (Rule_freq dice) 0 = Some 5 \<longleftrightarrow> (\<exists>v. set dice = {v})"
proof -
  have "(\<exists>v. dice = replicate 5 v) \<longleftrightarrow> (\<exists>v. set dice = {v})"
  proof
    assume "\<exists>v. dice = replicate 5 v"
    then obtain v where "dice = replicate 5 v" by blast
    then have "set dice = {v}" by simp
    then show "\<exists>v. set dice = {v}" by blast
  next
    assume "\<exists>v. set dice = {v}"
    then obtain v where "set dice = {v}" by blast
    then have "replicate (length dice) v = dice" by (intro replicate_length_same) simp
    with assms show "\<exists>v. dice = replicate 5 v" by auto
  qed
  with Yahtzee_cond [OF assms] show ?thesis by simp
qed

lemma evalRoll_perm:
  assumes v: "valid_roll dice" and m: "mset dice' = mset dice"
  shows "evalRoll r dice' = evalRoll r dice"
proof -
  have v': "valid_roll dice'" using v m by (rule valid_roll_perm)
  have s: "set dice' = set dice" using m by (rule mset_eq_setD)
  have len: "length dice = 5" "length dice' = 5"
    using v v' by (simp_all add: valid_roll_length)
  show ?thesis
  proof (cases r)
    case (TotalOneNumber val)
    then show ?thesis
      by (simp add: TotalOneNumber_evalRoll_def Rule_count_count_list count_list_mset m)
  next
    case (SumDistro cnt)
    then show ?thesis
      by (simp add: SumDistro_evalRoll_char v v' count_list_mset m sum_list_perm [OF m])
  next
    case (FullHouse score)
    then show ?thesis
      by (simp add: FullHouse_evalRoll_char len Rule_freq_perm [OF m])
  next
    case (SmallStraight score)
    have "SmallStraight_evalRoll score dice' = SmallStraight_evalRoll score dice"
      using valid_roll_digits [OF v] valid_roll_digits [OF v']
      by (simp add: SmallStraight_evalRoll_char s)
    with SmallStraight show ?thesis by simp
  next
    case (LargeStraight score)
    then show ?thesis
      by (simp add: LargeStraight_evalRoll_char s)
  next
    case (Yahtzee score)
    then show ?thesis
      by (simp add: Yahtzee_evalRoll_def Yahtzee_cond_set len s)
  qed
qed

lemma TotalOneNumber_nonneg: "0 \<le> val \<Longrightarrow> 0 \<le> TotalOneNumber_evalRoll val dice"
  by (simp add: TotalOneNumber_evalRoll_def Rule_count_count_list)

lemma valid_roll_sum_nonneg: "valid_roll dice \<Longrightarrow> 0 \<le> sum_list dice"
  using valid_roll_range [of dice] by (intro sum_list_nonneg) fastforce

lemma SumDistro_nonneg:
  "valid_roll dice \<Longrightarrow> \<exists>s. SumDistro_evalRoll cnt dice = Inr s \<and> 0 \<le> s"
  by (simp add: SumDistro_evalRoll_char valid_roll_sum_nonneg)

lemma flat_scores:
  "FullHouse_evalRoll score dice \<in> {0, score}"
  "SmallStraight_evalRoll score dice \<in> {0, score}"
  "LargeStraight_evalRoll score dice \<in> {0, score}"
  "Yahtzee_evalRoll score dice \<in> {0, score}"
  by (simp_all add: FullHouse_evalRoll_def SmallStraight_evalRoll_def LargeStraight_evalRoll_def
        Yahtzee_evalRoll_def Let_def)

lemma exported_cases:
  "r \<in> set exported \<Longrightarrow>
     (\<exists>val\<in>{1..6}. r = TotalOneNumber val) \<or> (\<exists>cnt. r = SumDistro cnt)
     \<or> r = FullHouse 25 \<or> r = SmallStraight 30 \<or> r = LargeStraight 40 \<or> r = Yahtzee 50"
  by (auto simp: exported_def ones_def twos_def threes_def fours_def fives_def sixes_def
        threeOfKind_def fourOfKind_def fullHouse_def smallStraight_def largeStraight_def
        yahtzee_def chance_def)

lemma exported_nonneg:
  assumes "valid_roll dice" and "r \<in> set exported"
  shows "\<exists>s. evalRoll r dice = Inr s \<and> 0 \<le> s"
proof -
  note c = exported_cases [OF assms(2)]
  have flat: "0 \<le> FullHouse_evalRoll 25 dice" "0 \<le> SmallStraight_evalRoll 30 dice"
    "0 \<le> LargeStraight_evalRoll 40 dice" "0 \<le> Yahtzee_evalRoll 50 dice"
    using flat_scores(1) [of 25 dice] flat_scores(2) [of 30 dice] flat_scores(3) [of 40 dice]
      flat_scores(4) [of 50 dice] by auto
  from c consider
      (face) val where "0 \<le> val" "r = TotalOneNumber val"
    | (distro) cnt where "r = SumDistro cnt"
    | (house) "r = FullHouse 25"
    | (small) "r = SmallStraight 30"
    | (large) "r = LargeStraight 40"
    | (yahtzee) "r = Yahtzee 50"
    by fastforce
  then show ?thesis
  proof cases
    case face
    then show ?thesis using TotalOneNumber_nonneg [of val dice] by simp
  next
    case distro
    then show ?thesis using SumDistro_nonneg [OF assms(1), of cnt] by simp
  next
    case house
    then show ?thesis using flat(1) by simp
  next
    case small
    then show ?thesis using flat(2) by simp
  next
    case large
    then show ?thesis using flat(3) by simp
  next
    case yahtzee
    then show ?thesis using flat(4) by simp
  qed
qed

section \<open>The claims\<close>

text \<open>
  C9. For dice showing faces from 1 to 6, \<open>sum(roll)\<close> is the arithmetic sum of the dice
  for every non-empty roll. On the empty roll it raises a \<open>TypeError\<close>; a roll of exactly
  five dice never reaches that branch, so on such rolls \<open>sum\<close> always returns a value.
  The model is a pure function: there is no state to change.
\<close>

theorem Rule_sum_total:
  assumes "list_all (\<lambda>d. 1 \<le> d \<and> d \<le> 6) dice"
  shows "(dice \<noteq> [] \<longrightarrow> Rule_sum dice = Inr (sum_list dice))
         \<and> Rule_sum [] = Inl TypeError
         \<and> (length dice = 5 \<longrightarrow> (\<exists>s. Rule_sum dice = Inr s \<and> s = sum_list dice))"
proof -
  have "Rule_sum [] = Inl TypeError" by (simp add: Rule_sum_def)
  moreover have "length dice = 5 \<longrightarrow> dice \<noteq> []" by auto
  ultimately show ?thesis by (simp add: Rule_sum_nonempty)
qed

theorem Rule_sum_total_witness:
  "list_all (\<lambda>d. 1 \<le> d \<and> d \<le> 6) [2, 3, 3, 4, 6 :: int]
   \<and> [2, 3, 3, 4, 6] \<noteq> ([] :: int list) \<and> length [2, 3, 3, 4, 6 :: int] = 5
   \<and> Rule_sum [2, 3, 3, 4, 6] = Inr 18"
proof -
  have h: "list_all (\<lambda>d. 1 \<le> d \<and> d \<le> 6) [2, 3, 3, 4, 6 :: int]" by simp
  show ?thesis using h Rule_sum_total [OF h] by simp
qed

text \<open>
  C6. For a valid roll and a target face \<open>V\<close> from 1 to 6 (the rules \<open>ones\<close> to
  \<open>sixes\<close>), \<open>evalRoll\<close> returns a value, never an error; the value is \<open>V\<close> times the
  number of dice equal to \<open>V\<close>, hence one of \<open>0, V, 2V, 3V, 4V, 5V\<close>.
\<close>

theorem TotalOneNumber_score:
  assumes "valid_roll dice" and "1 \<le> V" and "V \<le> 6"
  shows "evalRoll (TotalOneNumber V) dice = Inr (V * int (count_list dice V))
         \<and> TotalOneNumber_evalRoll V dice = V * int (count_list dice V)
         \<and> TotalOneNumber_evalRoll V dice \<in> {0, V, 2 * V, 3 * V, 4 * V, 5 * V}"
proof -
  have eq: "TotalOneNumber_evalRoll V dice = V * int (count_list dice V)"
    by (simp add: TotalOneNumber_evalRoll_def Rule_count_count_list)
  have "count_list dice V \<le> 5"
    using count_le_length [of dice V] assms(1) by (simp add: valid_roll_length)
  then have "count_list dice V \<in> {0, 1, 2, 3, 4, 5}" by auto
  then have "V * int (count_list dice V) \<in> {0, V, 2 * V, 3 * V, 4 * V, 5 * V}"
    by auto
  with eq show ?thesis by simp
qed

theorem TotalOneNumber_score_witness:
  "valid_roll [3, 3, 3, 2, 2] \<and> (1::int) \<le> 3 \<and> (3::int) \<le> 6
   \<and> evalRoll threes [3, 3, 3, 2, 2] = Inr 9"
proof -
  have h: "valid_roll [3, 3, 3, 2, 2]" by (simp add: valid_roll_def)
  show ?thesis
    using h TotalOneNumber_score [OF h, of 3] by (simp add: threes_def)
qed

text \<open>
  C1. On a valid roll \<open>fullHouse\<close> scores 25 exactly when the counts of the frequency
  profile are, as a multiset, \<open>{3, 2}\<close>, that is when one face shows exactly three times
  and another exactly twice; otherwise it scores 0. Five of a kind scores 0.
\<close>

theorem FullHouse_score:
  assumes "valid_roll dice"
  shows "(evalRoll fullHouse dice = Inr 25 \<longleftrightarrow> mset (Rule_freq dice) = {#3, 2#})
         \<and> (mset (Rule_freq dice) = {#3, 2#}
              \<longleftrightarrow> (\<exists>a b. count_list dice a = 3 \<and> count_list dice b = 2))
         \<and> (evalRoll fullHouse dice \<noteq> Inr 25 \<longrightarrow> evalRoll fullHouse dice = Inr 0)
         \<and> evalRoll fullHouse [5, 5, 5, 5, 5] = Inr 0"
proof -
  have len: "length dice = 5" using assms by (rule valid_roll_length)
  have "evalRoll fullHouse dice = Inr (if mset (Rule_freq dice) = {#3, 2#} then 25 else 0)"
    by (simp add: fullHouse_def FullHouse_evalRoll_char [OF len])
  moreover note full_house_faces [OF len]
  moreover have "evalRoll fullHouse [5, 5, 5, 5, 5] = Inr 0"
    by (simp add: fullHouse_def FullHouse_five_of_a_kind)
  ultimately show ?thesis by simp
qed

theorem FullHouse_score_witness:
  "valid_roll [3, 2, 3, 2, 3] \<and> mset (Rule_freq [3, 2, 3, 2, 3]) = {#3, 2#}
   \<and> evalRoll fullHouse [3, 2, 3, 2, 3] = Inr 25"
proof -
  have h: "valid_roll [3, 2, 3, 2, 3]" by (simp add: valid_roll_def)
  have "count_list [3, 2, 3, 2, 3 :: int] 3 = 3 \<and> count_list [3, 2, 3, 2, 3 :: int] 2 = 2"
    by simp
  then have "\<exists>a b. count_list [3, 2, 3, 2, 3 :: int] a = 3
                 \<and> count_list [3, 2, 3, 2, 3 :: int] b = 2" by blast
  with h FullHouse_score [OF h] show ?thesis by blast
qed

text \<open>
  C4. On a valid roll \<open>yahtzee\<close> scores 50 exactly when all five dice show the same
  value, and 0 otherwise: the test the code makes, that the first entry of the frequency
  profile is 5, holds exactly for such rolls.
\<close>

theorem Yahtzee_score:
  assumes "valid_roll dice"
  shows "(evalRoll yahtzee dice = Inr 50 \<longleftrightarrow> (\<exists>v. dice = replicate 5 v))
         \<and> (evalRoll yahtzee dice \<noteq> Inr 50 \<longrightarrow> evalRoll yahtzee dice = Inr 0)
         \<and> (js_index (Rule_freq dice) 0 = Some 5 \<longleftrightarrow> (\<exists>v. dice = replicate 5 v))
         \<and> evalRoll yahtzee [4, 4, 4, 4, 4] = Inr 50
         \<and> evalRoll yahtzee [4, 4, 4, 4, 3] = Inr 0"
proof -
  have len: "length dice = 5" using assms by (rule valid_roll_length)
  show ?thesis
    using Yahtzee_cond [OF len]
    by (simp add: yahtzee_def Yahtzee_evalRoll_def Yahtzee_examples [unfolded Yahtzee_evalRoll_def])
qed

theorem Yahtzee_score_witness:
  "valid_roll [2, 2, 2, 2, 2] \<and> evalRoll yahtzee [2, 2, 2, 2, 2] = Inr 50"
proof -
  have h: "valid_roll [2, 2, 2, 2, 2]" by (simp add: valid_roll_def)
  have "\<exists>v. [2, 2, 2, 2, 2 :: int] = replicate 5 v" by (simp add: eval_nat_numeral)
  with h Yahtzee_score [OF h] show ?thesis by blast
qed

text \<open>
  C5. On a valid roll a \<open>SumDistro\<close> rule with threshold \<open>M\<close> (3 for \<open>threeOfKind\<close>, 4 for
  \<open>fourOfKind\<close>, 0 for \<open>chance\<close>) returns the sum of the dice when some face occurs at
  least \<open>M\<close> times, and 0 otherwise; it never raises. With \<open>M = 0\<close> it always returns the
  sum.
\<close>

theorem SumDistro_score:
  assumes "valid_roll dice"
  shows "evalRoll (SumDistro M) dice =
           Inr (if \<exists>v\<in>{1..6}. M \<le> int (count_list dice v) then sum_list dice else 0)
         \<and> evalRoll chance dice = Inr (sum_list dice)
         \<and> evalRoll threeOfKind [3, 3, 3, 2, 2] = Inr 13
         \<and> evalRoll threeOfKind [3, 3, 2, 2, 1] = Inr 0
         \<and> evalRoll chance [2, 3, 3, 4, 6] = Inr 18"
proof -
  have "\<exists>v\<in>{1..6::int}. 0 \<le> int (count_list dice v)"
    by (intro bexI [of _ 1]) simp_all
  then have "evalRoll chance dice = Inr (sum_list dice)"
    by (simp only: chance_def evalRoll.simps SumDistro_evalRoll_char [OF assms] if_True)
  then show ?thesis
    by (simp add: SumDistro_evalRoll_char [OF assms] threeOfKind_def chance_def
          SumDistro_examples)
qed

theorem SumDistro_score_witness:
  "valid_roll [4, 1, 4, 4, 4] \<and> evalRoll fourOfKind [4, 1, 4, 4, 4] = Inr 17
   \<and> evalRoll fourOfKind [4, 1, 4, 1, 4] = Inr 0"
proof -
  have h: "valid_roll [4, 1, 4, 4, 4]" and h': "valid_roll [4, 1, 4, 1, 4]"
    by (simp_all add: valid_roll_def)
  have s: "{1..6::int} = {1, 2, 3, 4, 5, 6}" by auto
  show ?thesis
    using h SumDistro_score [OF h, of 4] SumDistro_score [OF h', of 4]
    by (simp add: fourOfKind_def s)
qed

text \<open>
  C3. On a valid roll \<open>largeStraight\<close> scores 40 exactly when the roll has five distinct
  values and lacks a 1 or lacks a 6, that is when its values are exactly 1 to 5 or exactly
  2 to 6; otherwise it scores 0.
\<close>

theorem LargeStraight_score:
  assumes "valid_roll dice"
  shows "(evalRoll largeStraight dice = Inr 40
            \<longleftrightarrow> card (set dice) = 5 \<and> (1 \<notin> set dice \<or> 6 \<notin> set dice))
         \<and> (card (set dice) = 5 \<and> (1 \<notin> set dice \<or> 6 \<notin> set dice)
              \<longleftrightarrow> set dice = {1..5} \<or> set dice = {2..6})
         \<and> (evalRoll largeStraight dice \<noteq> Inr 40 \<longrightarrow> evalRoll largeStraight dice = Inr 0)
         \<and> evalRoll largeStraight [1, 2, 3, 4, 5] = Inr 40
         \<and> evalRoll largeStraight [2, 3, 4, 5, 6] = Inr 40
         \<and> evalRoll largeStraight [1, 2, 3, 4, 6] = Inr 0"
proof -
  have "evalRoll largeStraight dice =
          Inr (if card (set dice) = 5 \<and> (1 \<notin> set dice \<or> 6 \<notin> set dice) then 40 else 0)"
    by (simp add: largeStraight_def LargeStraight_evalRoll_char)
  moreover note large_straight_runs [OF assms]
  moreover have "evalRoll largeStraight [1, 2, 3, 4, 5] = Inr 40"
    "evalRoll largeStraight [2, 3, 4, 5, 6] = Inr 40"
    "evalRoll largeStraight [1, 2, 3, 4, 6] = Inr 0"
    by (simp_all only: largeStraight_def evalRoll.simps LargeStraight_examples)
  ultimately show ?thesis by simp
qed

theorem LargeStraight_score_witness:
  "valid_roll [6, 2, 4, 3, 5] \<and> set [6, 2, 4, 3, 5] = {2..6::int}
   \<and> evalRoll largeStraight [6, 2, 4, 3, 5] = Inr 40"
proof -
  have h: "valid_roll [6, 2, 4, 3, 5]" by (simp add: valid_roll_def)
  have s: "set [6, 2, 4, 3, 5] = {2..6::int}" by auto
  with h LargeStraight_score [OF h] show ?thesis by blast
qed

text \<open>
  C2. On a valid roll \<open>smallStraight\<close> scores 30 exactly when the longest run of
  consecutive integers in the sorted distinct values has length at least 4, that is when
  four consecutive faces are present; otherwise it scores 0. The score depends only on
  the set of values shown, so duplicates neither extend nor break a run.
\<close>

theorem SmallStraight_score:
  assumes "valid_roll dice"
  shows "(evalRoll smallStraight dice = Inr 30
            \<longleftrightarrow> 4 \<le> longest_run (sorted_list_of_set (set dice)))
         \<and> (4 \<le> longest_run (sorted_list_of_set (set dice))
              \<longleftrightarrow> (\<exists>a. {a, a + 1, a + 2, a + 3} \<subseteq> set dice))
         \<and> (evalRoll smallStraight dice \<noteq> Inr 30 \<longrightarrow> evalRoll smallStraight dice = Inr 0)
         \<and> (\<forall>dice'. set dice' = set dice
                \<longrightarrow> evalRoll smallStraight dice' = evalRoll smallStraight dice)
         \<and> evalRoll smallStraight [1, 2, 3, 4, 6] = Inr 30
         \<and> evalRoll smallStraight [1, 2, 3, 5, 6] = Inr 0"
proof -
  have range: "\<forall>d\<in>set dice. 0 \<le> d \<and> d \<le> 9"
    using valid_roll_range [OF assms] by fastforce
  have char: "evalRoll smallStraight dice =
          Inr (if 4 \<le> longest_run (sorted_list_of_set (set dice)) then 30 else 0)"
    by (simp add: smallStraight_def SmallStraight_evalRoll_char [OF range])
  have "evalRoll smallStraight dice' = evalRoll smallStraight dice"
    if "set dice' = set dice" for dice'
  proof -
    from that range have "\<forall>d\<in>set dice'. 0 \<le> d \<and> d \<le> 9" by simp
    then show ?thesis
      using that by (simp add: smallStraight_def SmallStraight_evalRoll_char range)
  qed
  moreover note small_straight_faces [of "set dice"]
  moreover have "evalRoll smallStraight [1, 2, 3, 4, 6] = Inr 30"
    "evalRoll smallStraight [1, 2, 3, 5, 6] = Inr 0"
    by (simp_all only: smallStraight_def evalRoll.simps SmallStraight_examples)
  ultimately show ?thesis using char by simp
qed

theorem SmallStraight_score_witness:
  "valid_roll [3, 4, 2, 5, 3] \<and> {2, 2 + 1, 2 + 2, 2 + 3} \<subseteq> set [3, 4, 2, 5, 3 :: int]
   \<and> evalRoll smallStraight [3, 4, 2, 5, 3] = Inr 30"
proof -
  have h: "valid_roll [3, 4, 2, 5, 3]" by (simp add: valid_roll_def)
  have s: "{2, 2 + 1, 2 + 2, 2 + 3} \<subseteq> set [3, 4, 2, 5, 3 :: int]" by simp
  then have "\<exists>a. {a, a + 1, a + 2, a + 3} \<subseteq> set [3, 4, 2, 5, 3 :: int]" by (rule exI)
  with h s SmallStraight_score [OF h] show ?thesis by blast
qed

text \<open>
  C10. \<open>SmallStraight.evalRoll\<close> sorts the distinct values with the default comparator,
  which compares string representations. For dice from 1 to 6 that order is the numeric
  order, so the sorted array, the scan over it and the score are those of the numeric
  sort.
\<close>

theorem Array_sort_refines_numeric:
  assumes "list_all (\<lambda>d. 1 \<le> d \<and> d \<le> 6) dice"
  shows "(\<forall>x\<in>set dice. \<forall>y\<in>set dice.
            Number_toString x \<le> Number_toString y \<longleftrightarrow> x \<le> y)
         \<and> Array_sort (new_Set dice) = sort (new_Set dice)
         \<and> SmallStraight_loop (Array_sort (new_Set dice)) 0 0 1
             = SmallStraight_loop (sort (new_Set dice)) 0 0 1
         \<and> SmallStraight_evalRoll score dice = SmallStraight_numeric score dice"
proof -
  have range: "\<forall>d\<in>set dice. 0 \<le> d \<and> d \<le> 9"
    using assms by (fastforce simp: list_all_iff)
  then have "\<forall>x\<in>set dice. \<forall>y\<in>set dice.
            Number_toString x \<le> Number_toString y \<longleftrightarrow> x \<le> y"
    by (simp add: Number_toString_le)
  moreover have "Array_sort (new_Set dice) = sort (new_Set dice)"
    using range by (simp add: Array_sort_numeric set_new_Set)
  ultimately show ?thesis
    by (simp add: SmallStraight_evalRoll_def SmallStraight_numeric_def)
qed

theorem Array_sort_refines_numeric_witness:
  "list_all (\<lambda>d. 1 \<le> d \<and> d \<le> 6) [3, 1, 3, 2, 6 :: int]
   \<and> Array_sort (new_Set [3, 1, 3, 2, 6]) = [1, 2, 3, 6]"
proof -
  have h: "list_all (\<lambda>d. 1 \<le> d \<and> d \<le> 6) [3, 1, 3, 2, 6 :: int]" by simp
  have "sort (new_Set [3, 1, 3, 2, 6 :: int]) = [1, 2, 3, 6]"
    by (simp add: new_Set_def Set_add_old Set_add_new)
  with h Array_sort_refines_numeric [OF h, of 30] show ?thesis by simp
qed

text \<open>
  C7. Reordering the dice of a valid roll changes the score of no exported rule: the
  score depends only on the multiset of the dice values.
\<close>

theorem evalRoll_order_independent:
  assumes "valid_roll dice" and "mset dice' = mset dice"
  shows "\<forall>r\<in>set exported. evalRoll r dice' = evalRoll r dice"
proof
  fix r
  show "evalRoll r dice' = evalRoll r dice" using assms by (rule evalRoll_perm)
qed

theorem evalRoll_order_independent_witness:
  "valid_roll [3, 3, 3, 2, 2] \<and> mset [2, 3, 2, 3, 3] = mset [3, 3, 3, 2, 2 :: int]
   \<and> fullHouse \<in> set exported
   \<and> evalRoll fullHouse [2, 3, 2, 3, 3] = evalRoll fullHouse [3, 3, 3, 2, 2]"
proof -
  have h: "valid_roll [3, 3, 3, 2, 2]" by (simp add: valid_roll_def)
  have m: "mset [2, 3, 2, 3, 3] = mset [3, 3, 3, 2, 2 :: int]" by simp
  have e: "fullHouse \<in> set exported" by (simp add: exported_def)
  from evalRoll_order_independent [OF h m] e
  have "evalRoll fullHouse [2, 3, 2, 3, 3] = evalRoll fullHouse [3, 3, 3, 2, 2]" by (rule bspec)
  with h m e show ?thesis by blast
qed

text \<open>
  C8. On a valid roll every exported rule returns a value, never an error, and the value
  is a non-negative integer; each flat-score rule returns 0 or exactly its flat score
  (25 for \<open>fullHouse\<close>, 30 for \<open>smallStraight\<close>, 40 for \<open>largeStraight\<close>, 50 for
  \<open>yahtzee\<close>).
\<close>

theorem evalRoll_nonneg_flat:
  assumes "valid_roll dice"
  shows "(\<forall>r\<in>set exported. \<exists>s. evalRoll r dice = Inr s \<and> 0 \<le> s)
         \<and> evalRoll fullHouse dice \<in> {Inr 0, Inr 25}
         \<and> evalRoll smallStraight dice \<in> {Inr 0, Inr 30}
         \<and> evalRoll largeStraight dice \<in> {Inr 0, Inr 40}
         \<and> evalRoll yahtzee dice \<in> {Inr 0, Inr 50}"
proof -
  have "\<forall>r\<in>set exported. \<exists>s. evalRoll r dice = Inr s \<and> 0 \<le> s"
  proof
    fix r assume "r \<in> set exported"
    with assms show "\<exists>s. evalRoll r dice = Inr s \<and> 0 \<le> s" by (rule exported_nonneg)
  qed
  moreover have "evalRoll fullHouse dice \<in> {Inr 0, Inr 25}"
    using flat_scores(1) [of 25 dice] by (simp add: fullHouse_def)
  moreover have "evalRoll smallStraight dice \<in> {Inr 0, Inr 30}"
    using flat_scores(2) [of 30 dice] by (simp add: smallStraight_def)
  moreover have "evalRoll largeStraight dice \<in> {Inr 0, Inr 40}"
    using flat_scores(3) [of 40 dice] by (simp add: largeStraight_def)
  moreover have "evalRoll yahtzee dice \<in> {Inr 0, Inr 50}"
    using flat_scores(4) [of 50 dice] by (simp add: yahtzee_def)
  ultimately show ?thesis by blast
qed

theorem evalRoll_nonneg_flat_witness:
  "valid_roll [1, 2, 3, 4, 5] \<and> chance \<in> set exported
   \<and> (\<exists>s. evalRoll chance [1, 2, 3, 4, 5] = Inr s \<and> 0 \<le> s)
   \<and> evalRoll largeStraight [1, 2, 3, 4, 5] \<in> {Inr 0, Inr 40}"
proof -
  have h: "valid_roll [1, 2, 3, 4, 5]" by (simp add: valid_roll_def)
  have e: "chance \<in> set exported" by (simp add: exported_def)
  note t = evalRoll_nonneg_flat [OF h]
  from t have "\<forall>r\<in>set exported. \<exists>s. evalRoll r [1, 2, 3, 4, 5] = Inr s \<and> 0 \<le> s" by blast
  from this e have "\<exists>s. evalRoll chance [1, 2, 3, 4, 5] = Inr s \<and> 0 \<le> s" by (rule bspec)
  with h e t show ?thesis by blast
qed

end
